theory Spec2Isabelle
  imports Main
begin

section \<open>Prime factorisation: \<open>factors\<close>\<close>

text \<open>
  The notebook's first code cell:
  \<^verbatim>\<open>
  def factors(n) -> list:
      "List of prime factors that multiply together to give n."
      return ([]   if n == 1
              else next([p] + factors(n // p)
                        for p in range(2, n + 1) if n % p == 0))
  \<close>
  Python integers are unbounded, so \<open>n\<close> is an \<open>int\<close>. \<open>range(2, n + 1)\<close> is the
  list \<open>[2..n]\<close>, empty when \<open>n < 2\<close>. \<open>next\<close> takes the first element of the
  generator, and raises \<open>StopIteration\<close> when the generator has none. An exception
  that leaves the recursive call escapes from inside the generator expression, where
  Python 3.7 turns a \<open>StopIteration\<close> into a \<open>RuntimeError\<close>. For a divisor
  \<open>p > 0\<close>, Python's \<open>%\<close> and \<open>//\<close> are \<open>mod\<close> and \<open>div\<close> on \<open>int\<close>.
  \<open>factors\<close> is the function on an interpreter with no bound on the depth of the
  recursion; \<open>factors_limited\<close> below has the bound.
\<close>

datatype py_error = StopIteration | RuntimeError | RecursionError

function factors :: "int \<Rightarrow> py_error + int list" where
  "factors n =
     (if n = 1 then Inr []
      else (case List.find (\<lambda>p. n mod p = 0) [2..n] of
              None \<Rightarrow> Inl StopIteration
            | Some p \<Rightarrow>
                (case factors (n div p) of
                   Inl e \<Rightarrow> Inl RuntimeError
                 | Inr fs \<Rightarrow> Inr ([p] @ fs))))"
  by pat_completeness auto

lemma find_divisor_range:
  assumes "List.find (\<lambda>p. n mod p = 0) [2..n] = Some p"
  shows "2 \<le> p" and "p \<le> n" and "n mod p = 0"
proof -
  from assms have "p \<in> set [2..n] \<and> n mod p = 0"
    by (auto simp: find_Some_iff)
  then show "2 \<le> p" and "p \<le> n" and "n mod p = 0"
    by auto
qed

termination factors
proof (relation "measure nat")
  show "wf (measure nat)" by simp
next
  fix n p :: int
  assume "n \<noteq> 1" and f: "List.find (\<lambda>p. n mod p = 0) [2..n] = Some p"
  from find_divisor_range [OF f] have "2 \<le> p" "p \<le> n" by simp_all
  then have "n div p < n" "0 < n"
    by (simp_all add: int_div_less_self)
  then show "(n div p, n) \<in> measure nat"
    by simp
qed

declare factors.simps [simp del]



text \<open>
  \<^verbatim>\<open>
  def product(nums) -> int:
      "Multiply nums together (similar to sum(nums))."
      result = 1
      for num in nums:
          result *= num
      return result
  \<close>
\<close>

definition product :: "int list \<Rightarrow> int" where
  "product nums = fold (\<lambda>num result. result * num) nums 1"

text \<open>Primality, as a check over the candidates for a proper divisor.\<close>

definition is_prime :: "int \<Rightarrow> bool" where
  "is_prime p = (2 \<le> p \<and> (\<forall>d \<in> {2..<p}. \<not> d dvd p))"

section \<open>Valid numbers: the two filtering passes\<close>

text \<open>
  \<^verbatim>\<open>
  distinct = set
  numbers = {n for n in range(1, 71) if len(distinct(factors(n))) >= 2}
  prime_counts = Counter(p for n in numbers for p in distinct(factors(n)))
  numbers = {n for n in numbers if all(prime_counts[p] >= 5 for p in distinct(factors(n)))}
  \<close>
  A comprehension stops at the first exception of its body, so the loops are
  traversals in the error type. The set \<open>numbers\<close> is kept as the list of its
  members in the order the interpreter iterates them: CPython stores an \<open>int\<close>
  below the table size of a set at the slot of its own value, so these sets are
  iterated in ascending order (the order of the notebook's printed output, and of the
  lexicographic listing of the group of product 302400). A \<open>Counter\<close> is the function
  from a key to the number of its occurrences, 0 for a key never seen. In
  \<open>prime_counts\<close> the call \<open>factors(n)\<close> is made inside the generator expression that
  \<open>Counter\<close> consumes, so a \<open>StopIteration\<close> of \<open>factors\<close> arrives as a
  \<open>RuntimeError\<close>; in the two set comprehensions it arrives unchanged.
\<close>

fun filter_e :: "('a \<Rightarrow> py_error + bool) \<Rightarrow> 'a list \<Rightarrow> py_error + 'a list" where
  "filter_e c [] = Inr []"
| "filter_e c (x # xs) =
     (case c x of
        Inl e \<Rightarrow> Inl e
      | Inr b \<Rightarrow>
          (case filter_e c xs of
             Inl e \<Rightarrow> Inl e
           | Inr ys \<Rightarrow> Inr (if b then x # ys else ys)))"

fun map_e :: "('a \<Rightarrow> py_error + 'b) \<Rightarrow> 'a list \<Rightarrow> py_error + 'b list" where
  "map_e f [] = Inr []"
| "map_e f (x # xs) =
     (case f x of
        Inl e \<Rightarrow> Inl e
      | Inr y \<Rightarrow>
          (case map_e f xs of
             Inl e \<Rightarrow> Inl e
           | Inr ys \<Rightarrow> Inr (y # ys)))"

definition distinct_factors :: "int \<Rightarrow> py_error + int set" where
  "distinct_factors n = (case factors n of Inl e \<Rightarrow> Inl e | Inr fs \<Rightarrow> Inr (set fs))"

definition numbers_pass1 :: "int \<Rightarrow> py_error + int list" where
  "numbers_pass1 maxN =
     filter_e (\<lambda>n. case distinct_factors n of
                      Inl e \<Rightarrow> Inl e
                    | Inr ps \<Rightarrow> Inr (2 \<le> card ps)) [1..maxN]"

definition prime_counts :: "int list \<Rightarrow> py_error + (int \<Rightarrow> nat)" where
  "prime_counts numbers =
     (case map_e (\<lambda>n. case factors n of
                         Inl e \<Rightarrow> Inl e
                       | Inr fs \<Rightarrow> Inr (remdups fs)) numbers of
        Inl StopIteration \<Rightarrow> Inl RuntimeError
      | Inl e \<Rightarrow> Inl e
      | Inr pss \<Rightarrow> Inr (count_list (concat pss)))"

definition numbers_pass2 :: "int list \<Rightarrow> (int \<Rightarrow> nat) \<Rightarrow> py_error + int list" where
  "numbers_pass2 numbers pc =
     filter_e (\<lambda>n. case distinct_factors n of
                      Inl e \<Rightarrow> Inl e
                    | Inr ps \<Rightarrow> Inr (\<forall>p \<in> ps. 5 \<le> pc p)) numbers"

text \<open>The cells in sequence: pass 1, the prime counts over its result, pass 2.\<close>

definition filter_universe :: "int list \<Rightarrow> py_error + int list" where
  "filter_universe numbers =
     (case prime_counts numbers of
        Inl e \<Rightarrow> Inl e
      | Inr pc \<Rightarrow> numbers_pass2 numbers pc)"

definition numbers1 :: "py_error + int list" where
  "numbers1 = numbers_pass1 70"

definition numbers2 :: "py_error + int list" where
  "numbers2 = (case numbers1 of Inl e \<Rightarrow> Inl e | Inr ns \<Rightarrow> filter_universe ns)"

text \<open>The 41 and the 28 numbers the notebook prints.\<close>

definition printed_numbers1 :: "int list" where
  "printed_numbers1 =
     [6, 10, 12, 14, 15, 18, 20, 21, 22, 24, 26, 28, 30, 33, 34, 35, 36, 38, 39, 40, 42,
      44, 45, 46, 48, 50, 51, 52, 54, 55, 56, 57, 58, 60, 62, 63, 65, 66, 68, 69, 70]"

definition printed_numbers2 :: "int list" where
  "printed_numbers2 =
     [6, 10, 12, 14, 15, 18, 20, 21, 22, 24, 28, 30, 33, 35, 36, 40, 42, 44, 45, 48, 50,
      54, 55, 56, 60, 63, 66, 70]"

section \<open>Valid selections: grouping by product\<close>

text \<open>
  \<open>itertools.combinations(iterable, r)\<close> of the standard library: the \<open>r\<close>-element
  subsequences of the input, as tuples, in lexicographic order of their positions.
\<close>

fun combinations :: "'a list \<Rightarrow> nat \<Rightarrow> 'a list list" where
  "combinations xs 0 = [[]]"
| "combinations [] (Suc r) = []"
| "combinations (x # xs) (Suc r) = map ((#) x) (combinations xs r) @ combinations xs (Suc r)"

text \<open>
  \<^verbatim>\<open>
  def multimap(items, key) -> dict:
      "A dict of {key(item): [item, ...]}"
      result = defaultdict(list)
      for x in items:
          result[key(x)].append(x)
      return result

  products = multimap(combinations(numbers, 5), key=product)
  \<close>
  A \<open>dict\<close> keeps its keys in the order of their first insertion; it is the
  association list of its items in that order. \<open>result[k].append(x)\<close> extends the
  list of a key that is present, and adds the key at the end otherwise.
\<close>

type_synonym selection = "int list"

fun append_item :: "'k \<Rightarrow> 'v \<Rightarrow> ('k \<times> 'v list) list \<Rightarrow> ('k \<times> 'v list) list" where
  "append_item k x [] = [(k, [x])]"
| "append_item k x ((k', xs) # result) =
     (if k' = k then (k', xs @ [x]) # result else (k', xs) # append_item k x result)"

definition multimap :: "'v list \<Rightarrow> ('v \<Rightarrow> 'k) \<Rightarrow> ('k \<times> 'v list) list" where
  "multimap items key = fold (\<lambda>x result. append_item (key x) x result) items []"

definition build_products :: "int list \<Rightarrow> (int \<times> selection list) list" where
  "build_products numbers = multimap (combinations numbers 5) product"

text \<open>\<open>products[n]\<close> on the \<open>defaultdict(list)\<close>: the empty list for a missing key.\<close>

definition lookup :: "('k \<times> 'v list) list \<Rightarrow> 'k \<Rightarrow> 'v list" where
  "lookup d k = (case map_of d k of None \<Rightarrow> [] | Some xs \<Rightarrow> xs)"

section \<open>Disjoint selections: \<open>k_disjoint\<close>\<close>

text \<open>
  \<^verbatim>\<open>
  def k_disjoint(k, selections, start=0, partial_solution=set()) -> list:
      "All ways of picking k elements of selections that have all disjoint members."
      if len(partial_solution) == k:
          yield partial_solution
      elif len(partial_solution) + (len(selections) - start) >= k:
          for i in range(start, len(selections)):
              selection = selections[i]
              if all(is_disjoint(selection, s) for s in partial_solution):
                  yield from k_disjoint(k, selections, i + 1, partial_solution | {selection})

  def is_disjoint(A, B) -> bool: return not any(a in B for a in A)
  \<close>
  The generator is the list of the values it yields, in order. \<open>start\<close> is 0 at the
  top and \<open>i + 1\<close> below, a natural number; \<open>k\<close> is any integer. The indices of
  the loop are below \<open>len(selections)\<close>, so \<open>selections[i]\<close> is in range.
\<close>

definition is_disjoint :: "'a list \<Rightarrow> 'a list \<Rightarrow> bool" where
  "is_disjoint A B = (\<not> list_ex (\<lambda>a. a \<in> set B) A)"

function k_disjoint :: "int \<Rightarrow> selection list \<Rightarrow> nat \<Rightarrow> selection set \<Rightarrow> selection set list" where
  "k_disjoint k selections start partial_solution =
     (if int (card partial_solution) = k then [partial_solution]
      else if int (card partial_solution) + (int (length selections) - int start) \<ge> k then
        concat (map (\<lambda>i. let selection = selections ! i in
                           if \<forall>s \<in> partial_solution. is_disjoint selection s
                           then k_disjoint k selections (i + 1) (partial_solution \<union> {selection})
                           else [])
                    [start..<length selections])
      else [])"
  by pat_completeness auto
termination
  by (relation "measure (\<lambda>(k, selections, start, partial_solution). length selections - start)")
     auto

declare k_disjoint.simps [simp del]

text \<open>The call \<open>k_disjoint(k, selections)\<close> with both defaults.\<close>

definition k_disjoint_call :: "int \<Rightarrow> selection list \<Rightarrow> selection set list" where
  "k_disjoint_call k selections = k_disjoint k selections 0 {}"

section \<open>The two questions\<close>

text \<open>
  \<^verbatim>\<open>
  N = next(n for n in products if any(k_disjoint(5, products[n])))
  different_ways = list(k_disjoint(5, products[N]))
  \<close>
  \<open>any\<close> asks for a yielded value that is true, and a set is true when it is not
  empty. \<open>next\<close> raises \<open>StopIteration\<close> when no key passes.
\<close>

definition has_solution :: "(int \<times> selection list) list \<Rightarrow> int \<Rightarrow> bool" where
  "has_solution products n = list_ex (\<lambda>s. s \<noteq> {}) (k_disjoint_call 5 (lookup products n))"

text \<open>
  \<open>next\<close> on the generator expression runs the loop \<open>for n in products\<close> up to the first
  key that passes the test. The model returns the outcome together with the keys the loop
  has taken from the dictionary, in order.
\<close>

fun next_key :: "('k \<Rightarrow> bool) \<Rightarrow> 'k list \<Rightarrow> (py_error + 'k) \<times> 'k list" where
  "next_key c [] = (Inl StopIteration, [])"
| "next_key c (n # ns) =
     (if c n then (Inr n, [n])
      else (case next_key c ns of (outcome, seen) \<Rightarrow> (outcome, n # seen)))"

definition find_product :: "(int \<times> selection list) list \<Rightarrow> py_error + int" where
  "find_product products = fst (next_key (has_solution products) (map fst products))"

definition examined :: "(int \<times> selection list) list \<Rightarrow> int list" where
  "examined products = snd (next_key (has_solution products) (map fst products))"

definition different_ways :: "(int \<times> selection list) list \<Rightarrow> int \<Rightarrow> selection set list" where
  "different_ways products N = k_disjoint_call 5 (lookup products N)"

section \<open>\<open>k_disjoint\<close> on a store of objects\<close>

text \<open>
  A Python list and a Python set are objects that the program holds by reference, and
  that a statement could change in place. To state what a call does to its arguments, the
  generator is modelled a second time, on a store of the list objects and the set objects:
  a reference is the position of the object in the store. \<open>len(selections)\<close>,
  \<open>selections[i]\<close>, \<open>len(partial_solution)\<close> and the iteration over
  \<open>partial_solution\<close> read the store. \<open>partial_solution | {selection}\<close> makes a new
  set object (the operand \<open>{selection}\<close> is a temporary that nothing refers to
  afterwards, and is left out). \<open>yield partial_solution\<close> hands out the reference.
  \<open>kd k r start p st ys st'\<close>: the call with the list at \<open>r\<close> and the set at \<open>p\<close>, run
  to its end in the store \<open>st\<close>, yields the references \<open>ys\<close> and leaves the store \<open>st'\<close>.
  \<open>kd_for\<close> is the \<open>for\<close> loop over the indices that \<open>range\<close> has fixed on entry.
\<close>

record store =
  list_objs :: "selection list list"
  set_objs :: "selection set list"

inductive kd :: "int \<Rightarrow> nat \<Rightarrow> nat \<Rightarrow> nat \<Rightarrow> store \<Rightarrow> nat list \<Rightarrow> store \<Rightarrow> bool"
  and kd_for :: "int \<Rightarrow> nat \<Rightarrow> nat list \<Rightarrow> nat \<Rightarrow> store \<Rightarrow> nat list \<Rightarrow> store \<Rightarrow> bool"
where
  kd_yield:
    "int (card (set_objs st ! p)) = k \<Longrightarrow> kd k r start p st [p] st"
| kd_prune:
    "int (card (set_objs st ! p)) \<noteq> k \<Longrightarrow>
     \<not> k \<le> int (card (set_objs st ! p)) + (int (length (list_objs st ! r)) - int start) \<Longrightarrow>
     kd k r start p st [] st"
| kd_loop:
    "int (card (set_objs st ! p)) \<noteq> k \<Longrightarrow>
     k \<le> int (card (set_objs st ! p)) + (int (length (list_objs st ! r)) - int start) \<Longrightarrow>
     kd_for k r [start..<length (list_objs st ! r)] p st ys st' \<Longrightarrow>
     kd k r start p st ys st'"
| for_done:
    "kd_for k r [] p st [] st"
| for_skip:
    "\<not> (\<forall>s \<in> set_objs st ! p. is_disjoint (list_objs st ! r ! i) s) \<Longrightarrow>
     kd_for k r is p st ys st' \<Longrightarrow>
     kd_for k r (i # is) p st ys st'"
| for_step:
    "\<forall>s \<in> set_objs st ! p. is_disjoint (list_objs st ! r ! i) s \<Longrightarrow>
     kd k r (i + 1) (length (set_objs st)) (st\<lparr>set_objs := set_objs st @ [set_objs st ! p \<union> {list_objs st ! r ! i}]\<rparr>) ys st1 \<Longrightarrow>
     kd_for k r is p st1 zs st2 \<Longrightarrow>
     kd_for k r (i # is) p st (ys @ zs) st2"

code_pred kd .

text \<open>
  Executing the \<open>def\<close> statement evaluates the default \<open>set()\<close> once: one empty set
  object, whose reference every call without a fourth argument receives.
\<close>

definition define_k_disjoint :: "store \<Rightarrow> nat \<times> store" where
  "define_k_disjoint st = (length (set_objs st), st\<lparr>set_objs := set_objs st @ [{}]\<rparr>)"

definition small_store :: store where
  "small_store = snd (define_k_disjoint \<lparr>list_objs = [[[1], [2]]], set_objs = []\<rparr>)"

section \<open>Notions the claims are stated with\<close>

text \<open>No number is shared between two different members of a set of selections.\<close>

definition pairwise_disjoint :: "selection set \<Rightarrow> bool" where
  "pairwise_disjoint S = (\<forall>A \<in> S. \<forall>B \<in> S. A \<noteq> B \<longrightarrow> set A \<inter> set B = {})"

text \<open>
  The order of iteration that the specification asks of the discovery step: the products
  whose group has at least 5 selections first, then the rest.
\<close>

definition size_first_order :: "(int \<times> selection list) list \<Rightarrow> int list" where
  "size_first_order products =
     map fst (filter (\<lambda>(n, g). 5 \<le> length g) products) @
     map fst (filter (\<lambda>(n, g). length g < 5) products)"

text \<open>
  A small dictionary without a solution: the 3-element selections of product 6 and 48
  from the numbers 1, 2, 3, 4, 6, 8, 12, 24, in the order \<open>multimap\<close> stores them.
\<close>

definition small_products :: "(int \<times> selection list) list" where
  "small_products =
     [(6, [[1, 2, 3]]),
      (48, [[1, 2, 24], [1, 4, 12], [1, 6, 8], [2, 3, 8], [2, 4, 6]])]"

section \<open>Properties of \<open>factors\<close>\<close>

lemma fold_mult_acc: "fold (\<lambda>num result. result * num) nums (a::int) = a * prod_list nums"
  by (induction nums arbitrary: a) (simp_all add: mult.assoc)

lemma product_prod_list: "product nums = prod_list nums"
  by (simp add: product_def fold_mult_acc)

lemma is_prime_iff:
  "is_prime p \<longleftrightarrow> 1 < p \<and> (\<forall>d. 0 < d \<and> d dvd p \<longrightarrow> d = 1 \<or> d = p)"
proof
  assume h: "is_prime p"
  then have p: "2 \<le> p" and nd: "\<And>d. 2 \<le> d \<Longrightarrow> d < p \<Longrightarrow> \<not> d dvd p"
    by (auto simp: is_prime_def)
  have "d = 1 \<or> d = p" if "0 < d" "d dvd p" for d
  proof -
    from that p have "d \<le> p" by (simp add: zdvd_imp_le)
    with nd [of d] that show ?thesis by force
  qed
  with p show "1 < p \<and> (\<forall>d. 0 < d \<and> d dvd p \<longrightarrow> d = 1 \<or> d = p)"
    by auto
next
  assume "1 < p \<and> (\<forall>d. 0 < d \<and> d dvd p \<longrightarrow> d = 1 \<or> d = p)"
  then show "is_prime p"
    by (force simp: is_prime_def)
qed

lemma find_divisor_first:
  assumes "List.find (\<lambda>p. n mod p = 0) [2..n] = Some p" and "2 \<le> d" and "d < p"
  shows "n mod d \<noteq> 0"
proof -
  from assms(1) obtain i where i: "i < length [2..n]" "p = [2..n] ! i"
    and first: "\<forall>j<i. \<not> n mod ([2..n] ! j) = 0"
    by (auto simp: find_Some_iff)
  from i have p: "p = 2 + int i" by simp
  define j where "j = nat (d - 2)"
  from assms(2,3) p have j: "j < i" "d = 2 + int j" by (simp_all add: j_def)
  with i have "[2..n] ! j = d" by simp
  with first j show ?thesis by auto
qed

lemma find_divisor_prime:
  assumes "List.find (\<lambda>p. n mod p = 0) [2..n] = Some p"
  shows "is_prime p"
proof -
  note r = find_divisor_range [OF assms]
  have "\<not> d dvd p" if "2 \<le> d" "d < p" for d
  proof
    assume "d dvd p"
    moreover from r have "p dvd n" by (simp add: dvd_eq_mod_eq_0)
    ultimately have "d dvd n" by (rule dvd_trans)
    with find_divisor_first [OF assms that] show False
      by (simp add: dvd_eq_mod_eq_0)
  qed
  with r show ?thesis by (auto simp: is_prime_def)
qed

lemma find_divisor_exists:
  assumes "2 \<le> n"
  shows "\<exists>p. List.find (\<lambda>p. n mod p = 0) [2..n] = Some p"
proof -
  have "\<exists>x. x \<in> set [2..n] \<and> n mod x = 0"
    by (rule exI [of _ n]) (use assms in simp)
  then have "List.find (\<lambda>p. n mod p = 0) [2..n] \<noteq> None"
    by (simp add: find_None_iff)
  then show ?thesis by auto
qed

lemma factors_correct:
  "1 \<le> n \<Longrightarrow> \<exists>fs. factors n = Inr fs \<and> prod_list fs = n \<and> (\<forall>p \<in> set fs. is_prime p)"
proof (induction n rule: factors.induct)
  case (1 n)
  show ?case
  proof (cases "n = 1")
    case True
    then show ?thesis by (simp add: factors.simps)
  next
    case False
    with "1.prems" have "2 \<le> n" by simp
    from find_divisor_exists [OF this] obtain p
      where f: "List.find (\<lambda>p. n mod p = 0) [2..n] = Some p" ..
    note r = find_divisor_range [OF f]
    from r have "p dvd n" by (simp add: dvd_eq_mod_eq_0)
    then have np: "p * (n div p) = n" by simp
    from r have "0 < n div p"
      by (simp add: pos_imp_zdiv_pos_iff)
    then have "1 \<le> n div p" by simp
    from "1.IH" [OF False f this] obtain fs
      where fs: "factors (n div p) = Inr fs" "prod_list fs = n div p" "\<forall>q \<in> set fs. is_prime q"
      by blast
    from False f fs(1) have "factors n = Inr (p # fs)"
      by (simp add: factors.simps [of n])
    moreover from fs(2) np have "prod_list (p # fs) = n" by simp
    moreover from fs(3) find_divisor_prime [OF f] have "\<forall>q \<in> set (p # fs). is_prime q"
      by simp
    ultimately show ?thesis by blast
  qed
qed

text \<open>
  C3: for every \<open>n\<close> from 1 to 70, \<open>factors n\<close> returns a list whose product
  (the notebook's \<open>product\<close>) is \<open>n\<close> and whose elements are all prime; for
  \<open>n = 1\<close> the list is empty.
\<close>

theorem factors_product_prime:
  "factors 1 = Inr [] \<and>
   (\<forall>n \<in> {1..70}. \<exists>fs. factors n = Inr fs \<and> product fs = n \<and> (\<forall>p \<in> set fs. is_prime p))"
proof
  show "factors 1 = Inr []" by (simp add: factors.simps)
next
  show "\<forall>n \<in> {1..70}. \<exists>fs. factors n = Inr fs \<and> product fs = n \<and> (\<forall>p \<in> set fs. is_prime p)"
  proof
    fix n :: int
    assume "n \<in> {1..70}"
    then have "1 \<le> n" by simp
    from factors_correct [OF this] show "\<exists>fs. factors n = Inr fs \<and> product fs = n \<and> (\<forall>p \<in> set fs. is_prime p)"
      by (simp add: product_prod_list)
  qed
qed

theorem factors_product_prime_witness:
  "(12::int) \<in> {1..70} \<and>
   (\<exists>fs. factors 12 = Inr fs \<and> product fs = 12 \<and> (\<forall>p \<in> set fs. is_prime p))"
proof -
  have h: "(12::int) \<in> {1..70}" by simp
  from factors_product_prime have
    "\<forall>n \<in> {1..70}. \<exists>fs. factors n = Inr fs \<and> product fs = n \<and> (\<forall>p \<in> set fs. is_prime p)"
    by (rule conjunct2)
  from this h have "\<exists>fs. factors 12 = Inr fs \<and> product fs = 12 \<and> (\<forall>p \<in> set fs. is_prime p)"
    by (rule bspec)
  with h show ?thesis by (rule conjI)
qed










section \<open>The canonical universe\<close>

text \<open>An error of \<open>factors\<close> inside the generator that \<open>Counter\<close> consumes.\<close>

lemma prime_counts_zero: "prime_counts [0] = Inl RuntimeError"
  by (simp add: prime_counts_def factors.simps)

lemma numbers1_eq: "numbers1 = Inr printed_numbers1"
  by code_simp

lemma numbers2_eq: "numbers2 = Inr printed_numbers2"
  by code_simp

lemma filter_universe_numbers1: "filter_universe printed_numbers1 = Inr printed_numbers2"
  using numbers2_eq by (simp add: numbers2_def numbers1_eq)

lemma distinct_printed_numbers1: "distinct printed_numbers1"
  by (simp add: printed_numbers1_def)

lemma distinct_printed_numbers2: "distinct printed_numbers2"
  by (simp add: printed_numbers2_def)

lemma length_printed_numbers2: "length printed_numbers2 = 28"
  by (simp add: printed_numbers2_def)

text \<open>
  C4: with the numbers 1 to 70, pass 1 (at least 2 distinct prime factors) leaves a
  set of 41 numbers, and pass 2 (every prime factor in at least 5 of them) a set of 28.
\<close>

theorem filter_passes_41_28:
  "\<exists>ns1 ns2. numbers_pass1 70 = Inr ns1 \<and> distinct ns1 \<and> card (set ns1) = 41 \<and>
     filter_universe ns1 = Inr ns2 \<and> distinct ns2 \<and> card (set ns2) = 28"
proof -
  have "numbers_pass1 70 = Inr printed_numbers1"
    using numbers1_eq by (simp add: numbers1_def)
  moreover have "card (set printed_numbers1) = 41"
    by (simp add: distinct_card [OF distinct_printed_numbers1]) (simp add: printed_numbers1_def)
  moreover have "card (set printed_numbers2) = 28"
    by (simp add: distinct_card [OF distinct_printed_numbers2] length_printed_numbers2)
  ultimately show ?thesis
    using filter_universe_numbers1 distinct_printed_numbers1 distinct_printed_numbers2
    by blast
qed

theorem filter_passes_41_28_witness:
  "\<exists>ns1. numbers_pass1 70 = Inr ns1 \<and> length ns1 = 41 \<and>
     (\<exists>ns2. filter_universe ns1 = Inr ns2 \<and> length ns2 = 28)"
proof -
  from filter_passes_41_28 obtain ns1 ns2
    where "numbers_pass1 70 = Inr ns1" "distinct ns1" "card (set ns1) = 41"
      "filter_universe ns1 = Inr ns2" "distinct ns2" "card (set ns2) = 28"
    by blast
  then show ?thesis by (auto simp: distinct_card)
qed

text \<open>
  C8: on the 28 numbers that pass 2 leaves, counting the primes again and filtering
  again removes nothing: one application of pass 2 is a fixed point here.
\<close>

theorem pass2_fixed_point:
  "\<exists>ns. numbers2 = Inr ns \<and> filter_universe ns = Inr ns"
proof -
  have "filter_universe printed_numbers2 = Inr printed_numbers2"
    by code_simp
  with numbers2_eq show ?thesis by blast
qed

theorem pass2_fixed_point_witness:
  "\<exists>ns. numbers2 = Inr ns \<and> filter_universe ns = Inr ns \<and> length ns = 28"
proof -
  from pass2_fixed_point obtain ns where ns: "numbers2 = Inr ns" "filter_universe ns = Inr ns"
    by blast
  from ns(1) have "Inr ns = numbers2" by (rule sym)
  also note numbers2_eq
  finally have "ns = printed_numbers2" by (simp only: sum.inject)
  with ns length_printed_numbers2 show ?thesis by blast
qed

section \<open>Properties of \<open>combinations\<close> and \<open>multimap\<close>\<close>

lemma length_combinations: "length (combinations xs r) = length xs choose r"
  by (induction xs r rule: combinations.induct) simp_all

lemma combinations_length: "c \<in> set (combinations xs r) \<Longrightarrow> length c = r"
  by (induction xs r arbitrary: c rule: combinations.induct) auto

lemma combinations_subset: "c \<in> set (combinations xs r) \<Longrightarrow> set c \<subseteq> set xs"
  by (induction xs r arbitrary: c rule: combinations.induct) fastforce+

lemma combinations_distinct:
  "c \<in> set (combinations xs r) \<Longrightarrow> distinct xs \<Longrightarrow> distinct c"
proof (induction xs r arbitrary: c rule: combinations.induct)
  case (3 x xs r)
  from "3.prems" have x: "x \<notin> set xs" and d: "distinct xs" by simp_all
  from "3.prems"(1) consider c' where "c = x # c'" "c' \<in> set (combinations xs r)"
    | "c \<in> set (combinations xs (Suc r))"
    by auto
  then show ?case
  proof cases
    case 1
    with combinations_subset [OF 1(2)] x "3.IH"(1) [OF 1(2) d] show ?thesis by auto
  next
    case 2
    with "3.IH"(2) d show ?thesis by simp
  qed
qed simp_all

lemma set_combinations:
  "distinct xs \<Longrightarrow> set ` set (combinations xs r) = {S. S \<subseteq> set xs \<and> card S = r}"
proof (induction xs r rule: combinations.induct)
  case (1 xs)
  have "S \<subseteq> set xs \<and> card S = 0 \<longleftrightarrow> S = {}" for S
    using finite_subset [of S "set xs"] by auto
  then show ?case by simp
next
  case (2 r)
  then show ?case by auto
next
  case (3 x xs r)
  then have x: "x \<notin> set xs" and d: "distinct xs" by simp_all
  have fin: "finite (set xs)" by simp
  have "set ` set (combinations (x # xs) (Suc r)) =
      insert x ` (set ` set (combinations xs r)) \<union> set ` set (combinations xs (Suc r))"
    by (auto simp: image_Un image_image)
  also have "\<dots> = insert x ` {S. S \<subseteq> set xs \<and> card S = r} \<union> {S. S \<subseteq> set xs \<and> card S = Suc r}"
    using 3 d by simp
  also have "\<dots> = {S. S \<subseteq> set (x # xs) \<and> card S = Suc r}" (is "?L = ?R")
  proof (rule set_eqI, rule iffI)
    fix S assume "S \<in> ?L"
    then show "S \<in> ?R"
    proof
      assume "S \<in> insert x ` {S. S \<subseteq> set xs \<and> card S = r}"
      then obtain T where T: "S = insert x T" "T \<subseteq> set xs" "card T = r" by auto
      with x have "x \<notin> T" "finite T" by (auto intro: finite_subset [OF _ fin])
      with T show ?thesis by auto
    next
      assume "S \<in> {S. S \<subseteq> set xs \<and> card S = Suc r}"
      then show ?thesis by auto
    qed
  next
    fix S assume S: "S \<in> ?R"
    then have "S \<subseteq> set (x # xs)" by simp
    then have finS: "finite S" by (rule finite_subset) simp
    show "S \<in> ?L"
    proof (cases "x \<in> S")
      case True
      with S finS have "S = insert x (S - {x})" "S - {x} \<subseteq> set xs" "card (S - {x}) = r"
        by auto
      then show ?thesis by blast
    next
      case False
      with S show ?thesis by auto
    qed
  qed
  finally show ?case .
qed

lemma distinct_map_set_combinations:
  "distinct xs \<Longrightarrow> distinct (map set (combinations xs r))"
proof (induction xs r rule: combinations.induct)
  case (3 x xs r)
  then have x: "x \<notin> set xs" and d: "distinct xs" by simp_all
  have sub: "set c \<subseteq> set xs" if "c \<in> set (combinations xs k)" for c k
    using combinations_subset [OF that] .
  have inj: "inj_on (insert x) (set ` set (combinations xs r))"
  proof (rule inj_onI)
    fix A B
    assume "A \<in> set ` set (combinations xs r)" "B \<in> set ` set (combinations xs r)"
      and eq: "insert x A = insert x B"
    with sub x have "x \<notin> A" "x \<notin> B" by auto
    with eq show "A = B" by (simp add: insert_ident)
  qed
  from 3 d have ih: "distinct (combinations xs r)" "inj_on set (set (combinations xs r))"
    by (simp_all add: distinct_map)
  from comp_inj_on [OF ih(2) inj]
  have "inj_on (\<lambda>c. insert x (set c)) (set (combinations xs r))"
    by (simp add: comp_def)
  with ih(1) have 1: "distinct (map set (map ((#) x) (combinations xs r)))"
    by (simp add: distinct_map comp_def)
  have 2: "set (map set (map ((#) x) (combinations xs r))) \<inter> set (map set (combinations xs (Suc r))) = {}"
    using sub x by auto
  from 1 2 3 d show ?case by simp
qed simp_all

text \<open>The dictionary that \<open>multimap\<close> builds.\<close>

lemma lookup_append_item:
  "lookup (append_item k x d) k' = (if k' = k then lookup d k @ [x] else lookup d k')"
  by (induction k x d rule: append_item.induct) (auto simp: lookup_def)

lemma keys_append_item:
  "map fst (append_item k x d) = (if k \<in> fst ` set d then map fst d else map fst d @ [k])"
  by (induction k x d rule: append_item.induct) auto

lemma length_stored_append_item:
  "length (concat (map snd (append_item k x d))) = Suc (length (concat (map snd d)))"
  by (induction k x d rule: append_item.induct) auto

lemma set_stored_append_item:
  "set (concat (map snd (append_item k x d))) = insert x (set (concat (map snd d)))"
  by (induction k x d rule: append_item.induct) auto

declare set_concat [simp del]

lemma lookup_fold_append_item:
  "lookup (fold (\<lambda>x result. append_item (key x) x result) items d) n =
     lookup d n @ filter (\<lambda>x. key x = n) items"
  by (induction items arbitrary: d) (auto simp: lookup_append_item)

lemma distinct_keys_fold_append_item:
  "distinct (map fst d) \<Longrightarrow>
     distinct (map fst (fold (\<lambda>x result. append_item (key x) x result) items d))"
  by (induction items arbitrary: d) (auto simp: keys_append_item)

lemma set_keys_fold_append_item:
  "fst ` set (fold (\<lambda>x result. append_item (key x) x result) items d) =
     fst ` set d \<union> key ` set items"
proof (induction items arbitrary: d)
  case (Cons x items)
  have "set (map fst (append_item (key x) x d)) = insert (key x) (fst ` set d)"
    unfolding keys_append_item by (auto simp: insert_absorb)
  then have "fst ` set (append_item (key x) x d) = insert (key x) (fst ` set d)"
    by simp
  with Cons show ?case by simp
qed simp

lemma length_stored_fold_append_item:
  "length (concat (map snd (fold (\<lambda>x result. append_item (key x) x result) items d))) =
     length (concat (map snd d)) + length items"
  by (induction items arbitrary: d) (simp_all add: length_stored_append_item)

lemma set_stored_fold_append_item:
  "set (concat (map snd (fold (\<lambda>x result. append_item (key x) x result) items d))) =
     set (concat (map snd d)) \<union> set items"
  by (induction items arbitrary: d) (simp_all add: set_stored_append_item)

lemma lookup_multimap: "lookup (multimap items key) n = filter (\<lambda>x. key x = n) items"
  by (simp add: multimap_def lookup_fold_append_item) (simp add: lookup_def)

lemma distinct_keys_multimap: "distinct (map fst (multimap items key))"
  by (simp add: multimap_def distinct_keys_fold_append_item)

lemma set_keys_multimap: "set (map fst (multimap items key)) = key ` set items"
  using set_keys_fold_append_item [of key items "[]"] by (simp add: multimap_def)

lemma length_stored_multimap: "length (concat (map snd (multimap items key))) = length items"
  by (simp add: multimap_def length_stored_fold_append_item)

lemma set_stored_multimap: "set (concat (map snd (multimap items key))) = set items"
  by (simp add: multimap_def set_stored_fold_append_item)

lemma multimap_entry:
  assumes "(n, g) \<in> set (multimap items key)"
  shows "g = filter (\<lambda>x. key x = n) items"
proof -
  from assms distinct_keys_multimap [of items key] have "map_of (multimap items key) n = Some g"
    by simp
  then have "lookup (multimap items key) n = g" by (simp add: lookup_def)
  then show ?thesis by (simp add: lookup_multimap)
qed

lemma choose_step:
  assumes "n choose k = c" and "n' = n + 1" and "k' = k + 1" and "c' * k' = n' * c"
  shows "n' choose k' = c'"
proof -
  from assms have "c' * Suc k = Suc n * (n choose k)" by simp
  also have "\<dots> = (Suc n choose Suc k) * Suc k" by (rule Suc_times_binomial_eq)
  finally have "c' * Suc k = (Suc n choose Suc k) * Suc k" .
  then have "c' = Suc n choose Suc k" by (simp only: mult_cancel2) simp
  with assms show ?thesis by simp
qed

lemma choose_28_5: "(28::nat) choose 5 = 98280"
proof -
  have "(24::nat) choose 1 = 24" by simp
  then have "(25::nat) choose 2 = 300" by (rule choose_step) simp_all
  then have "(26::nat) choose 3 = 2600" by (rule choose_step) simp_all
  then have "(27::nat) choose 4 = 17550" by (rule choose_step) simp_all
  then show ?thesis by (rule choose_step) simp_all
qed

lemma build_products_keys: "distinct (map fst (build_products U))"
  by (simp add: build_products_def distinct_keys_multimap)

lemma build_products_length:
  "length (concat (map snd (build_products U))) = length U choose 5"
  by (simp add: build_products_def length_stored_multimap length_combinations)

lemma build_products_set:
  "set (concat (map snd (build_products U))) = set (combinations U 5)"
  by (simp add: build_products_def set_stored_multimap)

lemma build_products_distinct:
  assumes "distinct U"
  shows "distinct (map set (concat (map snd (build_products U))))"
proof (rule card_distinct)
  have "set (map set (concat (map snd (build_products U)))) = set (map set (combinations U 5))"
    by (simp add: build_products_set)
  then have "card (set (map set (concat (map snd (build_products U))))) =
      card (set (map set (combinations U 5)))"
    by simp
  also have "\<dots> = length (map set (combinations U 5))"
    by (rule distinct_card) (rule distinct_map_set_combinations [OF assms])
  also have "\<dots> = length (map set (concat (map snd (build_products U))))"
    by (simp add: build_products_length length_combinations)
  finally show "card (set (map set (concat (map snd (build_products U))))) =
      length (map set (concat (map snd (build_products U))))" .
qed

lemma build_products_entry:
  assumes "(n, g) \<in> set (build_products U)" and "c \<in> set g"
  shows "product c = n" and "c \<in> set (combinations U 5)"
proof -
  from multimap_entry [OF assms(1) [unfolded build_products_def]]
  have "g = filter (\<lambda>x. product x = n) (combinations U 5)" .
  with assms(2) show "product c = n" and "c \<in> set (combinations U 5)" by simp_all
qed

text \<open>
  C7: over the 28 numbers, \<open>products\<close> has each key once, and holds 98,280 selections in
  all; read as sets these are pairwise different and are exactly the 5-element subsets of
  the universe, so each combination is stored once. Every selection is stored under the
  key that is the product of its members (\<open>prod_list\<close>, the product of the list in
  HOL, which is what the notebook's \<open>product\<close> computes), and has 5 distinct members,
  all from the universe.
\<close>

theorem build_products_stores_all:
  "\<exists>U. numbers2 = Inr U \<and> length U = 28 \<and>
     distinct (map fst (build_products U)) \<and>
     length (concat (map snd (build_products U))) = 98280 \<and>
     distinct (map set (concat (map snd (build_products U)))) \<and>
     set ` set (concat (map snd (build_products U))) = {S. S \<subseteq> set U \<and> card S = 5} \<and>
     (\<forall>(n, g) \<in> set (build_products U). \<forall>c \<in> set g.
        prod_list c = n \<and> length c = 5 \<and> distinct c \<and> set c \<subseteq> set U)"
proof -
  let ?U = printed_numbers2
  note d = distinct_printed_numbers2
  have 1: "length (concat (map snd (build_products ?U))) = 98280"
    by (simp only: build_products_length length_printed_numbers2 choose_28_5)
  have 2: "set ` set (concat (map snd (build_products ?U))) = {S. S \<subseteq> set ?U \<and> card S = 5}"
    by (simp only: build_products_set set_combinations [OF d])
  have 3: "\<forall>(n, g) \<in> set (build_products ?U). \<forall>c \<in> set g.
        prod_list c = n \<and> length c = 5 \<and> distinct c \<and> set c \<subseteq> set ?U"
  proof (intro ballI, clarify)
    fix n g c
    assume e: "(n, g) \<in> set (build_products ?U)" "c \<in> set g"
    note m = build_products_entry [OF e]
    from m(1) [unfolded product_prod_list] combinations_length [OF m(2)]
      combinations_distinct [OF m(2) d] combinations_subset [OF m(2)]
    show "prod_list c = n \<and> length c = 5 \<and> distinct c \<and> set c \<subseteq> set ?U"
      by simp
  qed
  from numbers2_eq length_printed_numbers2 build_products_keys [of ?U] 1
    build_products_distinct [OF d] 2 3
  show ?thesis by (intro exI [of _ ?U] conjI)
qed

theorem build_products_stores_all_witness:
  "\<exists>U. numbers2 = Inr U \<and> length (concat (map snd (build_products U))) = 98280 \<and>
     (\<exists>n g c. (n, g) \<in> set (build_products U) \<and> c \<in> set g \<and>
        prod_list c = n \<and> length c = 5 \<and> distinct c \<and> set c \<subseteq> set U)"
proof -
  from build_products_stores_all obtain U where
    "numbers2 = Inr U \<and> length U = 28 \<and>
     distinct (map fst (build_products U)) \<and>
     length (concat (map snd (build_products U))) = 98280 \<and>
     distinct (map set (concat (map snd (build_products U)))) \<and>
     set ` set (concat (map snd (build_products U))) = {S. S \<subseteq> set U \<and> card S = 5} \<and>
     (\<forall>(n, g) \<in> set (build_products U). \<forall>c \<in> set g.
        prod_list c = n \<and> length c = 5 \<and> distinct c \<and> set c \<subseteq> set U)" ..
  note A = this
  note B = A [THEN conjunct2, THEN conjunct2, THEN conjunct2]
  note U = A [THEN conjunct1] A [THEN conjunct2, THEN conjunct1] B [THEN conjunct1]
  note all = B [THEN conjunct2, THEN conjunct2, THEN conjunct2]
  define stored where "stored = concat (map snd (build_products U))"
  from U(3) have "length stored = 98280" by (simp only: stored_def)
  then have "stored \<noteq> []" by (intro notI) simp
  then obtain c where "c \<in> set stored" by (cases stored) auto
  then obtain n g where e: "(n, g) \<in> set (build_products U)" "c \<in> set g"
    by (auto simp: stored_def set_concat)
  have "\<forall>c \<in> set g. prod_list c = n \<and> length c = 5 \<and> distinct c \<and> set c \<subseteq> set U"
    using bspec [OF all e(1)] by simp
  from this e(2) have "prod_list c = n \<and> length c = 5 \<and> distinct c \<and> set c \<subseteq> set U"
    by (rule bspec)
  with e have "\<exists>n g c. (n, g) \<in> set (build_products U) \<and> c \<in> set g \<and>
        prod_list c = n \<and> length c = 5 \<and> distinct c \<and> set c \<subseteq> set U"
    by (intro exI [of _ n] exI [of _ g] exI [of _ c]) simp
  with U(1,3) show ?thesis by (intro exI [of _ U] conjI)
qed

section \<open>Correctness of \<open>k_disjoint\<close>\<close>

lemma is_disjoint_iff: "is_disjoint A B \<longleftrightarrow> set A \<inter> set B = {}"
  by (auto simp: is_disjoint_def list_ex_iff)

lemma k_disjoint_yield:
  "int (card ps) = k \<Longrightarrow> k_disjoint k sels start ps = [ps]"
  by (simp add: k_disjoint.simps)

lemma k_disjoint_prune:
  "int (card ps) \<noteq> k \<Longrightarrow> \<not> k \<le> int (card ps) + (int (length sels) - int start) \<Longrightarrow>
     k_disjoint k sels start ps = []"
  by (simp add: k_disjoint.simps)

lemma k_disjoint_loop:
  "int (card ps) \<noteq> k \<Longrightarrow> k \<le> int (card ps) + (int (length sels) - int start) \<Longrightarrow>
     k_disjoint k sels start ps =
       concat (map (\<lambda>i. if \<forall>s \<in> ps. is_disjoint (sels ! i) s
                         then k_disjoint k sels (i + 1) (ps \<union> {sels ! i}) else [])
                   [start..<length sels])"
  by (subst k_disjoint.simps) (simp add: Let_def)

lemma k_disjoint_member_cases:
  assumes "S \<in> set (k_disjoint k sels start ps)"
  obtains "int (card ps) = k" "S = ps"
  | i where "int (card ps) \<noteq> k" "k \<le> int (card ps) + (int (length sels) - int start)"
      "start \<le> i" "i < length sels" "\<forall>s \<in> ps. is_disjoint (sels ! i) s"
      "S \<in> set (k_disjoint k sels (i + 1) (ps \<union> {sels ! i}))"
proof (cases "int (card ps) = k")
  case True
  with assms that(1) show ?thesis by (simp add: k_disjoint_yield)
next
  case False
  show ?thesis
  proof (cases "k \<le> int (card ps) + (int (length sels) - int start)")
    case le: True
    from assms obtain i where "i \<in> set [start..<length sels]"
      "S \<in> set (if \<forall>s \<in> ps. is_disjoint (sels ! i) s
                  then k_disjoint k sels (i + 1) (ps \<union> {sels ! i}) else [])"
      unfolding k_disjoint_loop [OF False le] by (auto simp: set_concat)
    with False le that(2) [of i] show ?thesis by (auto split: if_splits)
  next
    case False2: False
    with False assms show ?thesis by (simp add: k_disjoint_prune)
  qed
qed

lemma in_set_drop_iff:
  "x \<in> set (drop start xs) \<longleftrightarrow> (\<exists>i. start \<le> i \<and> i < length xs \<and> xs ! i = x)"
proof
  assume "x \<in> set (drop start xs)"
  then obtain j where j: "j < length (drop start xs)" "drop start xs ! j = x"
    by (auto simp: in_set_conv_nth)
  then have "start \<le> start + j \<and> start + j < length xs \<and> xs ! (start + j) = x"
    by auto
  then show "\<exists>i. start \<le> i \<and> i < length xs \<and> xs ! i = x" ..
next
  assume "\<exists>i. start \<le> i \<and> i < length xs \<and> xs ! i = x"
  then obtain i where i: "start \<le> i" "i < length xs" "xs ! i = x" by blast
  then have "i - start < length (drop start xs)" "drop start xs ! (i - start) = x"
    by simp_all
  then show "x \<in> set (drop start xs)"
    unfolding in_set_conv_nth by blast
qed

lemma nth_in_drop: "start \<le> i \<Longrightarrow> i < length xs \<Longrightarrow> xs ! i \<in> set (drop start xs)"
  unfolding in_set_drop_iff by blast

lemma set_drop_Suc_subset: "start \<le> i \<Longrightarrow> set (drop (i + 1) xs) \<subseteq> set (drop start xs)"
  by (rule set_drop_subset_set_drop) simp

text \<open>Soundness: what is yielded extends the partial solution by later selections.\<close>

lemma k_disjoint_range:
  "S \<in> set (k_disjoint k sels start ps) \<Longrightarrow>
     ps \<subseteq> S \<and> S \<subseteq> ps \<union> set (drop start sels)"
proof (induction k sels start ps rule: k_disjoint.induct)
  case (1 k sels start ps)
  from "1.prems" show ?case
  proof (cases rule: k_disjoint_member_cases)
    case 1
    then show ?thesis by simp
  next
    case (2 i)
    from 2 have "i \<in> set [start..<length sels]" by simp
    from "1.IH" [OF 2(1,2) this refl 2(5,6)]
    have "ps \<union> {sels ! i} \<subseteq> S" "S \<subseteq> ps \<union> {sels ! i} \<union> set (drop (i + 1) sels)"
      by simp_all
    with nth_in_drop [OF 2(3,4)] set_drop_Suc_subset [OF 2(3), of sels]
    show ?thesis by blast
  qed
qed

lemma k_disjoint_sound:
  "S \<in> set (k_disjoint k sels start ps) \<Longrightarrow> pairwise_disjoint ps \<Longrightarrow>
     int (card S) = k \<and> pairwise_disjoint S"
proof (induction k sels start ps rule: k_disjoint.induct)
  case (1 k sels start ps)
  from "1.prems"(1) show ?case
  proof (cases rule: k_disjoint_member_cases)
    case 1
    with "1.prems" show ?thesis by simp
  next
    case (2 i)
    from 2 have "i \<in> set [start..<length sels]" by simp
    moreover from "1.prems"(2) 2(5) have "pairwise_disjoint (ps \<union> {sels ! i})"
      unfolding pairwise_disjoint_def is_disjoint_iff by blast
    ultimately show ?thesis
      using "1.IH" [OF 2(1,2) _ refl 2(5,6)] by blast
  qed
qed

text \<open>Completeness: every admissible extension of the partial solution is yielded.\<close>

lemma k_disjoint_complete:
  "finite ps \<Longrightarrow> T \<subseteq> set (drop start sels) \<Longrightarrow> T \<inter> ps = {} \<Longrightarrow>
     int (card (ps \<union> T)) = k \<Longrightarrow> pairwise_disjoint (ps \<union> T) \<Longrightarrow>
     ps \<union> T \<in> set (k_disjoint k sels start ps)"
proof (induction k sels start ps arbitrary: T rule: k_disjoint.induct)
  case (1 k sels start ps)
  show ?case
  proof (cases "T = {}")
    case True
    with "1.prems" show ?thesis by (simp add: k_disjoint_yield)
  next
    case False
    from "1.prems"(2) have finT: "finite T" by (rule finite_subset) simp
    with False have cardT: "0 < card T" by (simp add: card_gt_0_iff)
    from "1.prems"(1,3) finT have cardU: "card (ps \<union> T) = card ps + card T"
      by (simp add: card_Un_disjoint Int_commute)
    with cardT "1.prems"(4) have neq: "int (card ps) \<noteq> k" by simp
    from "1.prems"(2) have "card T \<le> card (set (drop start sels))"
      by (simp add: card_mono)
    also have "\<dots> \<le> length (drop start sels)" by (rule card_length)
    finally have "card T \<le> length sels - start" by simp
    with cardT cardU "1.prems"(4) have le: "k \<le> int (card ps) + (int (length sels) - int start)"
      by simp
    define P where "P i \<longleftrightarrow> start \<le> i \<and> i < length sels \<and> sels ! i \<in> T" for i
    define i where "i = (LEAST i. P i)"
    from False obtain t where "t \<in> T" by blast
    with "1.prems"(2) have "\<exists>i. P i"
      unfolding P_def using in_set_drop_iff [of t start sels] by blast
    then have "P i" unfolding i_def by (rule LeastI_ex)
    then have i: "start \<le> i" "i < length sels" "sels ! i \<in> T" by (simp_all add: P_def)
    have least: "\<not> P j" if "j < i" for j
      using that unfolding i_def by (rule not_less_Least)
    from i have mem: "i \<in> set [start..<length sels]" by simp
    have dis: "\<forall>s \<in> ps. is_disjoint (sels ! i) s"
    proof
      fix s assume "s \<in> ps"
      with i(3) "1.prems"(3) have "sels ! i \<noteq> s" by blast
      with \<open>s \<in> ps\<close> i(3) "1.prems"(5) show "is_disjoint (sels ! i) s"
        unfolding pairwise_disjoint_def is_disjoint_iff by blast
    qed
    define T' where "T' = T - {sels ! i}"
    have sub: "T' \<subseteq> set (drop (i + 1) sels)"
    proof
      fix t assume t: "t \<in> T'"
      with "1.prems"(2) obtain j where j: "start \<le> j" "j < length sels" "sels ! j = t"
        unfolding T'_def using in_set_drop_iff [of t start sels] by blast
      with t have "P j" by (simp add: P_def T'_def)
      with least [of j] have "i \<le> j" by (cases "j < i") simp_all
      moreover from t j(3) have "j \<noteq> i" by (auto simp: T'_def)
      ultimately have "i + 1 \<le> j" by simp
      with j show "t \<in> set (drop (i + 1) sels)"
        unfolding in_set_drop_iff by blast
    qed
    from i(3) have eq: "(ps \<union> {sels ! i}) \<union> T' = ps \<union> T" by (auto simp: T'_def)
    from "1.prems"(3) have int: "T' \<inter> (ps \<union> {sels ! i}) = {}" by (auto simp: T'_def)
    from "1.prems"(1) have fin: "finite (ps \<union> {sels ! i})" by simp
    from "1.prems"(4,5) have "int (card ((ps \<union> {sels ! i}) \<union> T')) = k"
      and "pairwise_disjoint ((ps \<union> {sels ! i}) \<union> T')"
      unfolding eq by - assumption+
    from "1.IH" [OF neq le mem refl dis fin sub int this]
    have "ps \<union> T \<in> set (k_disjoint k sels (i + 1) (ps \<union> {sels ! i}))"
      unfolding eq .
    with mem dis show ?thesis
      unfolding k_disjoint_loop [OF neq le] set_concat by force
  qed
qed

text \<open>Exactly once, for an input without a repeated selection.\<close>

lemma distinct_concat_map:
  "distinct xs \<Longrightarrow> (\<And>x. x \<in> set xs \<Longrightarrow> distinct (f x)) \<Longrightarrow>
     (\<And>x y. x \<in> set xs \<Longrightarrow> y \<in> set xs \<Longrightarrow> x \<noteq> y \<Longrightarrow> set (f x) \<inter> set (f y) = {}) \<Longrightarrow>
     distinct (concat (map f xs))"
proof (induction xs)
  case (Cons x xs)
  have "set (f x) \<inter> set (concat (map f xs)) = {}"
  proof -
    have "set (f x) \<inter> set (f y) = {}" if "y \<in> set xs" for y
      using Cons.prems(1) that by (intro Cons.prems(3)) auto
    then show ?thesis by (auto simp: set_concat)
  qed
  moreover have "distinct (concat (map f xs))"
    using Cons.prems by (intro Cons.IH) auto
  moreover have "distinct (f x)" by (rule Cons.prems(2)) simp
  ultimately show ?case by simp
qed simp

lemma distinct_nth_not_in_drop:
  assumes "distinct xs" and "i < j" and "i < length xs"
  shows "xs ! i \<notin> set (drop j xs)"
proof
  assume "xs ! i \<in> set (drop j xs)"
  then obtain m where m: "j \<le> m" "m < length xs" "xs ! m = xs ! i"
    unfolding in_set_drop_iff by blast
  with assms have "m = i" by (simp add: nth_eq_iff_index_eq)
  with m(1) assms(2) show False by simp
qed

lemma k_disjoint_distinct:
  "distinct sels \<Longrightarrow> ps \<inter> set (drop start sels) = {} \<Longrightarrow>
     distinct (k_disjoint k sels start ps)"
proof (induction k sels start ps rule: k_disjoint.induct)
  case (1 k sels start ps)
  note d = "1.prems"(1)
  show ?case
  proof (cases "int (card ps) = k")
    case True
    then show ?thesis by (simp add: k_disjoint_yield)
  next
    case neq: False
    show ?thesis
    proof (cases "k \<le> int (card ps) + (int (length sels) - int start)")
      case False
      with neq show ?thesis by (simp add: k_disjoint_prune)
    next
      case le: True
      let ?f = "\<lambda>i. if \<forall>s \<in> ps. is_disjoint (sels ! i) s
                     then k_disjoint k sels (i + 1) (ps \<union> {sels ! i}) else []"
      have fresh: "(ps \<union> {sels ! i}) \<inter> set (drop (i + 1) sels) = {}"
        if "i \<in> set [start..<length sels]" for i
      proof -
        from that have i: "start \<le> i" "i < length sels" by simp_all
        from "1.prems"(2) set_drop_Suc_subset [OF i(1), of sels]
        have "ps \<inter> set (drop (i + 1) sels) = {}" by blast
        moreover from distinct_nth_not_in_drop [OF d _ i(2), of "i + 1"]
        have "sels ! i \<notin> set (drop (i + 1) sels)" by simp
        ultimately show ?thesis by blast
      qed
      have "distinct (concat (map ?f [start..<length sels]))"
      proof (rule distinct_concat_map)
        show "distinct [start..<length sels]" by simp
      next
        fix i assume i: "i \<in> set [start..<length sels]"
        show "distinct (?f i)"
        proof (cases "\<forall>s \<in> ps. is_disjoint (sels ! i) s")
          case True
          then have "?f i = k_disjoint k sels (i + 1) (ps \<union> {sels ! i})" by (rule if_P)
          with "1.IH" [OF neq le i refl True d fresh [OF i]] show ?thesis
            by (simp only:)
        next
          case False
          then have "?f i = []" by (rule if_not_P)
          then show ?thesis by (simp only: distinct.simps)
        qed
      next
        fix i j
        assume ij: "i \<in> set [start..<length sels]" "j \<in> set [start..<length sels]" "i \<noteq> j"
        have apart: "set (?f a) \<inter> set (?f b) = {}"
          if a: "a \<in> set [start..<length sels]" and b: "b \<in> set [start..<length sels]"
            and ab: "a < b" for a b
        proof -
          from a b have ra: "start \<le> a" "a < length sels" and rb: "start \<le> b" "b < length sels"
            by simp_all
          have "False" if Sa: "S \<in> set (?f a)" and Sb: "S \<in> set (?f b)" for S
          proof -
            from Sa have "S \<in> set (k_disjoint k sels (a + 1) (ps \<union> {sels ! a}))"
              by (simp split: if_splits)
            from k_disjoint_range [OF this] have "sels ! a \<in> S" by simp
            moreover from Sb have "S \<in> set (k_disjoint k sels (b + 1) (ps \<union> {sels ! b}))"
              by (simp split: if_splits)
            from k_disjoint_range [OF this]
            have "S \<subseteq> ps \<union> {sels ! b} \<union> set (drop (b + 1) sels)" by simp
            ultimately have "sels ! a \<in> ps \<union> {sels ! b} \<union> set (drop (b + 1) sels)" by blast
            moreover from nth_in_drop [OF ra] "1.prems"(2) have "sels ! a \<notin> ps" by blast
            moreover from d ra rb ab have "sels ! a \<noteq> sels ! b"
              by (simp add: nth_eq_iff_index_eq)
            moreover from distinct_nth_not_in_drop [OF d _ ra(2), of "b + 1"] ab
            have "sels ! a \<notin> set (drop (b + 1) sels)" by simp
            ultimately show False by blast
          qed
          then show ?thesis by blast
        qed
        show "set (?f i) \<inter> set (?f j) = {}"
        proof (cases "i < j")
          case True
          from apart [OF ij(1,2) True] show ?thesis .
        next
          case False
          with ij(3) have "j < i" by simp
          from apart [OF ij(2,1) this] show ?thesis by (simp add: Int_commute)
        qed
      qed
      then show ?thesis by (simp only: k_disjoint_loop [OF neq le])
    qed
  qed
qed

text \<open>
  C2, amended: for every \<open>k\<close> and every list of selections, the sets that
  \<open>k_disjoint(k, selections)\<close> yields are exactly the sets of \<open>k\<close> selections of the
  input that are pairwise disjoint; when no selection is repeated in the input, each of
  them is yielded once. (With a repeated selection a set can be yielded several times:
  see the counterexample.)
\<close>

theorem k_disjoint_family:
  "set (k_disjoint_call k sels) =
     {S. S \<subseteq> set sels \<and> int (card S) = k \<and> pairwise_disjoint S} \<and>
   (distinct sels \<longrightarrow> distinct (k_disjoint_call k sels))"
proof
  show "set (k_disjoint_call k sels) =
      {S. S \<subseteq> set sels \<and> int (card S) = k \<and> pairwise_disjoint S}"
  proof (intro set_eqI iffI)
    fix S assume S: "S \<in> set (k_disjoint_call k sels)"
    have "pairwise_disjoint {}" by (simp add: pairwise_disjoint_def)
    with S k_disjoint_sound [of S k sels 0 "{}"] k_disjoint_range [of S k sels 0 "{}"]
    show "S \<in> {S. S \<subseteq> set sels \<and> int (card S) = k \<and> pairwise_disjoint S}"
      by (simp add: k_disjoint_call_def)
  next
    fix S assume "S \<in> {S. S \<subseteq> set sels \<and> int (card S) = k \<and> pairwise_disjoint S}"
    with k_disjoint_complete [of "{}" S 0 sels k]
    show "S \<in> set (k_disjoint_call k sels)"
      by (simp add: k_disjoint_call_def)
  qed
next
  show "distinct sels \<longrightarrow> distinct (k_disjoint_call k sels)"
    using k_disjoint_distinct [of sels "{}" 0 k] by (simp add: k_disjoint_call_def)
qed

theorem k_disjoint_family_witness:
  "distinct [[1, 2], [3], [2, 4::int]] \<and>
   distinct (k_disjoint_call 2 [[1, 2], [3], [2, 4]]) \<and>
   set (k_disjoint_call 2 [[1, 2], [3], [2, 4]]) =
     {S. S \<subseteq> set [[1, 2], [3], [2, 4]] \<and> int (card S) = 2 \<and> pairwise_disjoint S}"
proof -
  have d: "distinct [[1, 2], [3], [2, 4::int]]" by simp
  with k_disjoint_family [of 2 "[[1, 2], [3], [2, 4]]"] show ?thesis by blast
qed

theorem k_disjoint_duplicate_counterexample:
  "k_disjoint_call 1 [[1], [1]] = [{[1]}, {[1]}] \<and> \<not> distinct (k_disjoint_call 1 [[1], [1]])"
  by (simp add: k_disjoint_call_def k_disjoint.simps is_disjoint_def)

text \<open>The two examples of the notebook.\<close>

lemma k_disjoint_example_two:
  "k_disjoint_call 5 [[6, 60], [10, 36], [12, 30], [15, 24], [18, 20], [10, 35]] =
     [{[6, 60], [10, 36], [12, 30], [15, 24], [18, 20]},
      {[6, 60], [10, 35], [12, 30], [15, 24], [18, 20]}]"
  by code_simp

lemma k_disjoint_example_none:
  "k_disjoint_call 5 [[6, 10, 12, 14, 30], [6, 10, 12, 15, 28], [6, 10, 12, 20, 21],
     [6, 10, 14, 15, 24], [6, 10, 14, 18, 20], [6, 12, 14, 15, 20]] = []"
  by code_simp

section \<open>The discovery step when no product has a solution\<close>

lemma next_key_none: "\<forall>n \<in> set ns. \<not> c n \<Longrightarrow> next_key c ns = (Inl StopIteration, ns)"
  by (induction ns) simp_all

lemma next_key_find:
  "fst (next_key c ns) = (case List.find c ns of None \<Rightarrow> Inl StopIteration | Some n \<Rightarrow> Inr n)"
  by (induction ns) (auto split: prod.splits)

lemma small_products_no_solution:
  "\<not> has_solution small_products 6" "\<not> has_solution small_products 48"
  by code_simp+

text \<open>
  C6, amended: if no product group yields a packing of 5 pairwise disjoint selections,
  the discovery step ends with \<open>StopIteration\<close> raised to the caller, after one pass
  over all the products in the order of the dictionary (the order of first insertion),
  whatever the sizes of their groups.
\<close>

theorem find_product_not_found:
  assumes "\<forall>n \<in> set (map fst products). \<not> has_solution products n"
  shows "find_product products = Inl StopIteration \<and> examined products = map fst products"
  using next_key_none [OF assms] by (simp add: find_product_def examined_def)

theorem find_product_not_found_witness:
  "\<not> has_solution small_products 6 \<and> \<not> has_solution small_products 48 \<and>
   find_product small_products = Inl StopIteration \<and> examined small_products = [6, 48]"
proof -
  have "\<forall>n \<in> set (map fst small_products). \<not> has_solution small_products n"
    using small_products_no_solution by (simp add: small_products_def)
  from find_product_not_found [OF this] small_products_no_solution show ?thesis
    by (simp add: small_products_def)
qed

theorem discovery_order_counterexample:
  "\<not> has_solution small_products 6 \<and> \<not> has_solution small_products 48 \<and>
   find_product small_products = Inl StopIteration \<and>
   examined small_products = [6, 48] \<and> size_first_order small_products = [48, 6]"
proof -
  have "\<forall>n \<in> set (map fst small_products). \<not> has_solution small_products n"
    using small_products_no_solution by (simp add: small_products_def)
  from next_key_none [OF this] small_products_no_solution show ?thesis
    by (simp add: find_product_def examined_def) (simp add: small_products_def size_first_order_def)
qed

section \<open>Calls of \<open>k_disjoint\<close> and the store\<close>

lemma kd_frame:
  "kd k r start p st ys st' \<Longrightarrow> list_objs st' = list_objs st \<and> (\<exists>new. set_objs st' = set_objs st @ new)"
  "kd_for k r is p st ys st' \<Longrightarrow> list_objs st' = list_objs st \<and> (\<exists>new. set_objs st' = set_objs st @ new)"
proof (induction rule: kd_kd_for.inducts)
  case (for_step st p r i k ys st1 "is" zs st2)
  then show ?case by auto
qed auto

lemma kd_frame_nth:
  assumes "kd k r start p st ys st'" and "q < length (set_objs st)"
  shows "set_objs st' ! q = set_objs st ! q"
  using kd_frame(1) [OF assms(1)] assms(2) by (auto simp: nth_append)

lemma kd_for_frame_nth:
  assumes "kd_for k r is p st ys st'" and "q < length (set_objs st)"
  shows "set_objs st' ! q = set_objs st ! q"
  using kd_frame(2) [OF assms(1)] assms(2) by (auto simp: nth_append)

lemma kd_for_frame_length:
  assumes "kd_for k r is p st ys st'"
  shows "length (set_objs st) \<le> length (set_objs st')"
  using kd_frame(2) [OF assms] by auto

lemma kd_frame_length:
  assumes "kd k r start p st ys st'"
  shows "length (set_objs st) \<le> length (set_objs st')"
  using kd_frame(1) [OF assms] by auto

text \<open>The values of the yielded objects are the list that the function \<open>k_disjoint\<close> gives.\<close>

lemma kd_refines:
  "kd k r start p st ys st' \<Longrightarrow> p < length (set_objs st) \<Longrightarrow>
     (\<forall>q \<in> set ys. q < length (set_objs st')) \<and>
     map (nth (set_objs st')) ys = k_disjoint k (list_objs st ! r) start (set_objs st ! p)"
  "kd_for k r is p st ys st' \<Longrightarrow> p < length (set_objs st) \<Longrightarrow>
     (\<forall>q \<in> set ys. q < length (set_objs st')) \<and>
     map (nth (set_objs st')) ys =
       concat (map (\<lambda>i. if \<forall>s \<in> set_objs st ! p. is_disjoint (list_objs st ! r ! i) s
                         then k_disjoint k (list_objs st ! r) (i + 1) (set_objs st ! p \<union> {list_objs st ! r ! i})
                         else [])
                   is)"
proof (induction rule: kd_kd_for.inducts)
  case (kd_yield st p k r start)
  then show ?case by (simp add: k_disjoint_yield)
next
  case (kd_prune st p k r start)
  then show ?case by (simp add: k_disjoint_prune)
next
  case (kd_loop st p k r start ys st')
  then show ?case by (simp add: k_disjoint_loop)
next
  case (for_done k r p st)
  then show ?case by simp
next
  case (for_skip st p r i k "is" ys st')
  then show ?case by auto
next
  case (for_step st p r i k ys st1 "is" zs st2)
  let ?st = "st\<lparr>set_objs := set_objs st @ [set_objs st ! p \<union> {list_objs st ! r ! i}]\<rparr>"
  have new: "length (set_objs st) < length (set_objs ?st)" by simp
  from for_step.IH(1) [OF new] for_step.prems
  have ys: "\<forall>q \<in> set ys. q < length (set_objs st1)"
    and ysv: "map (nth (set_objs st1)) ys =
      k_disjoint k (list_objs st ! r) (i + 1) (set_objs st ! p \<union> {list_objs st ! r ! i})"
    by (simp_all add: nth_append)
  from kd_frame_length [OF for_step.hyps(2)] for_step.prems
  have p1: "p < length (set_objs st1)" by simp
  from kd_frame_nth [OF for_step.hyps(2), of p] for_step.prems
  have same: "set_objs st1 ! p = set_objs st ! p" by (simp add: nth_append)
  from kd_frame(1) [OF for_step.hyps(2)] have lists1: "list_objs st1 = list_objs st" by simp
  from for_step.IH(2) [OF p1, unfolded same lists1]
  have zs: "\<forall>q \<in> set zs. q < length (set_objs st2)"
    and zsv: "map (nth (set_objs st2)) zs =
      concat (map (\<lambda>i. if \<forall>s \<in> set_objs st ! p. is_disjoint (list_objs st ! r ! i) s
                         then k_disjoint k (list_objs st ! r) (i + 1) (set_objs st ! p \<union> {list_objs st ! r ! i})
                         else [])
                   is)"
    by blast+
  from ys kd_for_frame_nth [OF for_step.hyps(3)]
  have "map (nth (set_objs st2)) ys = map (nth (set_objs st1)) ys" by simp
  with ysv zsv for_step.hyps(1) have "map (nth (set_objs st2)) (ys @ zs) =
      concat (map (\<lambda>i. if \<forall>s \<in> set_objs st ! p. is_disjoint (list_objs st ! r ! i) s
                         then k_disjoint k (list_objs st ! r) (i + 1) (set_objs st ! p \<union> {list_objs st ! r ! i})
                         else [])
                   (i # is))"
    by simp
  moreover from ys zs kd_for_frame_length [OF for_step.hyps(3)]
  have "\<forall>q \<in> set (ys @ zs). q < length (set_objs st2)" by auto
  ultimately show ?case by blast
qed

text \<open>Every call returns.\<close>

lemma kd_total_aux:
  "length (list_objs st ! r) - start = n \<Longrightarrow> \<exists>ys st'. kd k r start p st ys st'"
proof (induction n arbitrary: st start p rule: less_induct)
  case (less n)
  show ?case
  proof (cases "int (card (set_objs st ! p)) = k")
    case True
    then show ?thesis by (blast intro: kd_yield)
  next
    case neq: False
    show ?thesis
    proof (cases "k \<le> int (card (set_objs st ! p)) + (int (length (list_objs st ! r)) - int start)")
      case False
      with neq show ?thesis by (blast intro: kd_prune)
    next
      case le: True
      have loop: "\<exists>ys st'. kd_for k r is p st1 ys st'"
        if "\<forall>i \<in> set is. start \<le> i \<and> i < length (list_objs st ! r)" "list_objs st1 = list_objs st"
        for "is" st1
        using that
      proof (induction "is" arbitrary: st1)
        case Nil
        show ?case by (blast intro: for_done)
      next
        case (Cons i "is")
        from Cons.prems have i: "start \<le> i" "i < length (list_objs st ! r)" by simp_all
        from Cons.prems have rest: "\<forall>i \<in> set is. start \<le> i \<and> i < length (list_objs st ! r)"
          by simp
        show ?case
        proof (cases "\<forall>s \<in> set_objs st1 ! p. is_disjoint (list_objs st1 ! r ! i) s")
          case False
          from Cons.IH [OF rest Cons.prems(2)] obtain ys st' where "kd_for k r is p st1 ys st'"
            by blast
          with False show ?thesis by (blast intro: for_skip)
        next
          case True
          let ?st = "st1\<lparr>set_objs := set_objs st1 @ [set_objs st1 ! p \<union> {list_objs st1 ! r ! i}]\<rparr>"
          from i less.prems Cons.prems(2)
          have "length (list_objs ?st ! r) - (i + 1) < n" by simp
          from less.IH [OF this refl] obtain ys st2
            where ys: "kd k r (i + 1) (length (set_objs st1)) ?st ys st2" by blast
          from kd_frame(1) [OF ys] Cons.prems(2) have "list_objs st2 = list_objs st" by simp
          from Cons.IH [OF rest this] obtain zs st3 where "kd_for k r is p st2 zs st3"
            by blast
          with True ys show ?thesis by (blast intro: for_step)
        qed
      qed
      have "\<forall>i \<in> set [start..<length (list_objs st ! r)]. start \<le> i \<and> i < length (list_objs st ! r)"
        by simp
      from loop [OF this refl] obtain ys st'
        where "kd_for k r [start..<length (list_objs st ! r)] p st ys st'" by blast
      with neq le show ?thesis by (blast intro: kd_loop)
    qed
  qed
qed

lemma kd_total: "\<exists>ys st'. kd k r start p st ys st'"
  by (rule kd_total_aux) (rule refl)


lemma kd_small_run:
  assumes "list_objs st ! 0 = [[1], [2]]" and "set_objs st ! 0 = {}" and "set_objs st \<noteq> []"
  shows "kd 1 0 0 0 st [length (set_objs st), length (set_objs st) + 1]
           (st\<lparr>set_objs := set_objs st @ [{[1]}, {[2]}]\<rparr>)"
proof -
  let ?n = "length (set_objs st)"
  let ?st1 = "st\<lparr>set_objs := set_objs st @ [{[1]}]\<rparr>"
  let ?st2 = "st\<lparr>set_objs := set_objs st @ [{[1]}, {[2]}]\<rparr>"
  from assms(3) have n: "0 < ?n" by simp
  have y1: "kd 1 0 (0 + 1) ?n ?st1 [?n] ?st1"
    by (rule kd_yield) simp
  have y2: "kd 1 0 (1 + 1) (?n + 1) ?st2 [?n + 1] ?st2"
    by (rule kd_yield) (simp add: nth_append)
  have "kd_for 1 0 [] 0 ?st2 [] ?st2" by (rule for_done)
  with for_step [of ?st1 0 0 1 1 "[?n + 1]" ?st2 "[]" "[]" ?st2] y2 assms n
  have "kd_for 1 0 [1] 0 ?st1 [?n + 1] ?st2"
    by (simp add: nth_append is_disjoint_def)
  with for_step [of st 0 0 0 1 "[?n]" ?st1 "[1]" "[?n + 1]" ?st2] y1 assms n
  have "kd_for 1 0 [0, 1] 0 st [?n, ?n + 1] ?st2"
    by (simp add: nth_append)
  moreover have "[0..<length (list_objs st ! 0)] = [0, 1]"
    by (simp add: assms upt_rec)
  ultimately show ?thesis
    using assms by (intro kd_loop) simp_all
qed

text \<open>
  C9: a call of \<open>k_disjoint\<close>, with any arguments, leaves every list object and every
  set object of the store as it was and only adds new set objects. In particular the list
  \<open>selections\<close>, the set \<open>partial_solution\<close> and the shared default set are unchanged.
\<close>

theorem k_disjoint_no_mutation:
  assumes "kd k r start p st ys st'"
  shows "list_objs st' = list_objs st \<and> length (set_objs st) \<le> length (set_objs st') \<and>
         (\<forall>q < length (set_objs st). set_objs st' ! q = set_objs st ! q)"
  using kd_frame(1) [OF assms] by (auto simp: nth_append)

theorem k_disjoint_no_mutation_witness:
  "kd 1 0 0 0 small_store [1, 2] (small_store\<lparr>set_objs := [{}, {[1]}, {[2]}]\<rparr>) \<and>
   list_objs (small_store\<lparr>set_objs := [{}, {[1]}, {[2]}]\<rparr>) = list_objs small_store \<and>
   [{}, {[1]}, {[2]}] ! 0 = set_objs small_store ! 0"
proof -
  have run: "kd 1 0 0 0 small_store [1, 2] (small_store\<lparr>set_objs := [{}, {[1]}, {[2]}]\<rparr>)"
    using kd_small_run [of small_store]
    by (simp add: small_store_def define_k_disjoint_def eval_nat_numeral)
  from k_disjoint_no_mutation [OF run] run show ?thesis
    by (simp add: small_store_def define_k_disjoint_def)
qed

text \<open>
  C5: two successive calls \<open>k_disjoint(k, selections)\<close> with the default arguments, the
  second in the store the first has left, both return, and yield the same sets in the same
  order: the list that the function \<open>k_disjoint\<close> gives for the list and the default set of
  the first store. The objects the first call has yielded keep their values.
\<close>

theorem k_disjoint_restartable:
  assumes "d < length (set_objs st)"
  shows "(\<exists>ys1 st1 ys2 st2. kd k r 0 d st ys1 st1 \<and> kd k r 0 d st1 ys2 st2) \<and>
         (\<forall>ys1 st1 ys2 st2. kd k r 0 d st ys1 st1 \<longrightarrow> kd k r 0 d st1 ys2 st2 \<longrightarrow>
            map (nth (set_objs st1)) ys1 = map (nth (set_objs st2)) ys2 \<and>
            map (nth (set_objs st2)) ys1 = map (nth (set_objs st1)) ys1 \<and>
            map (nth (set_objs st2)) ys2 = k_disjoint k (list_objs st ! r) 0 (set_objs st ! d))"
proof
  from kd_total obtain ys1 st1 where "kd k r 0 d st ys1 st1" by blast
  moreover from kd_total obtain ys2 st2 where "kd k r 0 d st1 ys2 st2" by blast
  ultimately show "\<exists>ys1 st1 ys2 st2. kd k r 0 d st ys1 st1 \<and> kd k r 0 d st1 ys2 st2"
    by blast
next
  have "map (nth (set_objs st1)) ys1 = map (nth (set_objs st2)) ys2 \<and>
        map (nth (set_objs st2)) ys1 = map (nth (set_objs st1)) ys1 \<and>
        map (nth (set_objs st2)) ys2 = k_disjoint k (list_objs st ! r) 0 (set_objs st ! d)"
    if 1: "kd k r 0 d st ys1 st1" and 2: "kd k r 0 d st1 ys2 st2" for ys1 st1 ys2 st2
  proof -
    from kd_refines(1) [OF 1 assms]
    have v1: "\<forall>q \<in> set ys1. q < length (set_objs st1)"
      and e1: "map (nth (set_objs st1)) ys1 = k_disjoint k (list_objs st ! r) 0 (set_objs st ! d)"
      by blast+
    from kd_frame_length [OF 1] assms have d1: "d < length (set_objs st1)" by simp
    from kd_frame(1) [OF 1] have l1: "list_objs st1 = list_objs st" by simp
    from kd_frame_nth [OF 1 assms] have s1: "set_objs st1 ! d = set_objs st ! d" .
    from kd_refines(1) [OF 2 d1]
    have e2: "map (nth (set_objs st2)) ys2 = k_disjoint k (list_objs st ! r) 0 (set_objs st ! d)"
      by (simp add: l1 s1)
    from v1 kd_frame_nth [OF 2]
    have "map (nth (set_objs st2)) ys1 = map (nth (set_objs st1)) ys1" by simp
    with e1 e2 show ?thesis by simp
  qed
  then show "\<forall>ys1 st1 ys2 st2. kd k r 0 d st ys1 st1 \<longrightarrow> kd k r 0 d st1 ys2 st2 \<longrightarrow>
            map (nth (set_objs st1)) ys1 = map (nth (set_objs st2)) ys2 \<and>
            map (nth (set_objs st2)) ys1 = map (nth (set_objs st1)) ys1 \<and>
            map (nth (set_objs st2)) ys2 = k_disjoint k (list_objs st ! r) 0 (set_objs st ! d)"
    by blast
qed

theorem k_disjoint_restartable_witness:
  "fst (define_k_disjoint \<lparr>list_objs = [[[1], [2]]], set_objs = []\<rparr>) < length (set_objs small_store) \<and>
   kd 1 0 0 0 small_store [1, 2] (small_store\<lparr>set_objs := [{}, {[1]}, {[2]}]\<rparr>) \<and>
   kd 1 0 0 0 (small_store\<lparr>set_objs := [{}, {[1]}, {[2]}]\<rparr>) [3, 4]
     (small_store\<lparr>set_objs := [{}, {[1]}, {[2]}, {[1]}, {[2]}]\<rparr>) \<and>
   map (nth [{}, {[1]}, {[2]}]) [1, 2] = map (nth [{}, {[1]}, {[2]}, {[1]}, {[2]}]) [3, 4]"
proof -
  let ?st1 = "small_store\<lparr>set_objs := [{}, {[1]}, {[2]}]\<rparr>"
  let ?st2 = "small_store\<lparr>set_objs := [{}, {[1]}, {[2]}, {[1]}, {[2]}]\<rparr>"
  have d: "0 < length (set_objs small_store)"
    by (simp add: small_store_def define_k_disjoint_def)
  have run1: "kd 1 0 0 0 small_store [1, 2] ?st1"
    using kd_small_run [of small_store]
    by (simp add: small_store_def define_k_disjoint_def eval_nat_numeral)
  have run2: "kd 1 0 0 0 ?st1 [3, 4] ?st2"
    using kd_small_run [of ?st1]
    by (simp add: small_store_def define_k_disjoint_def eval_nat_numeral)
  from k_disjoint_restartable [OF d, of 1 0] run1 run2
  have "map (nth (set_objs ?st1)) [1, 2] = map (nth (set_objs ?st2)) [3, 4]"
    by blast
  with d run1 run2 show ?thesis
    by (simp add: small_store_def define_k_disjoint_def)
qed

end
